theory Spec2Isabelle
  imports Main
begin

section \<open>Hazard pointers (tdutils/td/utils/HazardPointers.h)\<close>

subsection \<open>Data model\<close>

text \<open>
  A \<open>T *\<close> is an address; the null pointer is address 0, as \<open>if (ptr)\<close> in
  \<open>retire\<close> tests it. Addresses are only ever compared, never dereferenced.
\<close>

type_synonym ptr = nat

abbreviation (input) nullptr :: ptr where
  "nullptr \<equiv> 0"

text \<open>
  \<open>struct ThreadData\<close>: the array \<open>hazard\<close> of \<open>MaxPointersN\<close> atomic cells and the
  vector \<open>to_delete\<close> of owned pointers. The padding fields carry no data. The length of
  the list \<open>hazard\<close> is the array's size \<open>MaxPointersN\<close>.
\<close>

record ThreadData =
  hazard :: "ptr list"
  to_delete :: "ptr list"

text \<open>
  \<open>class HazardPointers\<close>: the vector \<open>threads_\<close>, named \<open>threads\<close> here (an Isabelle
  name cannot end in an underscore).
\<close>

record HazardPointers =
  threads :: "ThreadData list"

text \<open>
  The two ways a call can leave the defined behaviour of the class: \<open>CHECK(cond)\<close> with
  a false condition aborts the process (\<open>CheckFailed\<close>); \<open>std::array::operator[]\<close> does
  no bounds check, so an index past the array is undefined behaviour (\<open>ArrayOutOfBounds\<close>),
  not an abort.
\<close>

datatype fault = CheckFailed | ArrayOutOfBounds

text \<open>
  A \<open>std::atomic<T *> &\<close> into the registry is the place it refers to: thread index and
  position in that thread's array.
\<close>

type_synonym cell_ref = "nat \<times> nat"

definition cell_load :: "HazardPointers \<Rightarrow> cell_ref \<Rightarrow> ptr" where
  "cell_load hp c = hazard (threads hp ! fst c) ! snd c"

definition cell_store :: "HazardPointers \<Rightarrow> cell_ref \<Rightarrow> ptr \<Rightarrow> HazardPointers" where
  "cell_store hp c v =
     hp\<lparr>threads := (threads hp)
        [fst c := (threads hp ! fst c)\<lparr>hazard := (hazard (threads hp ! fst c))[snd c := v]\<rparr>]\<rparr>"

subsection \<open>Construction\<close>

text \<open>
  \<open>threads_(threads_n)\<close> builds \<open>threads_n\<close> elements, each with an empty \<open>to_delete\<close>
  and \<open>N = MaxPointersN\<close> atomic cells whose content before \<open>std::atomic_init\<close> is
  whatever the memory held: \<open>raw t i\<close> for cell \<open>i\<close> of thread \<open>t\<close>. The two nested
  loops of the constructor body then initialise every cell.
\<close>

definition HazardPointers_ctor :: "nat \<Rightarrow> (nat \<Rightarrow> nat \<Rightarrow> ptr) \<Rightarrow> nat \<Rightarrow> HazardPointers" where
  "HazardPointers_ctor N raw threads_n =
     (let threads0 = map (\<lambda>t. \<lparr>hazard = map (raw t) [0..<N], to_delete = []\<rparr>) [0..<threads_n]
      in \<lparr>threads = map (\<lambda>data. data\<lparr>hazard := map (\<lambda>ptr. nullptr) (hazard data)\<rparr>) threads0\<rparr>)"

subsection \<open>Cell lookup and the protection scope\<close>

text \<open>
  \<open>get_hazard_ptr\<close>: the thread index is checked, the position is not; the array
  access \<open>hazard[pos]\<close> is defined only below the array's size.
\<close>

definition get_hazard_ptr :: "HazardPointers \<Rightarrow> nat \<Rightarrow> nat \<Rightarrow> fault + cell_ref" where
  "get_hazard_ptr hp thread_id pos =
     (if \<not> thread_id < length (threads hp) then Inl CheckFailed
      else if \<not> pos < length (hazard (threads hp ! thread_id)) then Inl ArrayOutOfBounds
      else Inr (thread_id, pos))"

text \<open>
  \<open>class Holder\<close>: its only member is the reference \<open>hazard_ptr_\<close>, named
  \<open>hazard_ptr\<close> here.
\<close>

record Holder =
  hazard_ptr :: cell_ref

text \<open>
  \<open>get_holder\<close> returns the holder it constructs from the cell reference; the returned
  object is constructed in the caller's variable (copy elision), so no temporary holder is
  destroyed on the way.
\<close>

definition get_holder :: "HazardPointers \<Rightarrow> nat \<Rightarrow> nat \<Rightarrow> fault + Holder" where
  "get_holder hp thread_id pos =
     (case get_hazard_ptr hp thread_id pos of
        Inl e \<Rightarrow> Inl e
      | Inr c \<Rightarrow> Inr \<lparr>hazard_ptr = c\<rparr>)"

text \<open>\<open>Holder::clear\<close> and the static \<open>do_clear\<close>: one store of null.\<close>

definition Holder_clear :: "HazardPointers \<Rightarrow> Holder \<Rightarrow> HazardPointers" where
  "Holder_clear hp h = cell_store hp (hazard_ptr h) nullptr"

definition do_clear :: "HazardPointers \<Rightarrow> cell_ref \<Rightarrow> HazardPointers" where
  "do_clear hp c = cell_store hp c nullptr"

text \<open>\<open>~Holder\<close> calls \<open>clear\<close>.\<close>

definition Holder_dtor :: "HazardPointers \<Rightarrow> Holder \<Rightarrow> HazardPointers" where
  "Holder_dtor hp h = Holder_clear hp h"

text \<open>
  \<open>Holder(Holder &&other) = default\<close>: the defaulted move constructor initialises each
  member from the corresponding member of \<open>other\<close>. The only member is a reference, so
  the new holder refers to the same cell and \<open>other\<close> is left as it was. The result is
  the pair (moved-from holder, new holder).
\<close>

definition Holder_move :: "Holder \<Rightarrow> Holder \<times> Holder" where
  "Holder_move other = (other, \<lparr>hazard_ptr = hazard_ptr other\<rparr>)"

text \<open>The old interface: \<open>clear(thread_id, pos)\<close>.\<close>

definition clear_old :: "HazardPointers \<Rightarrow> nat \<Rightarrow> nat \<Rightarrow> fault + HazardPointers" where
  "clear_old hp thread_id pos =
     (case get_hazard_ptr hp thread_id pos of
        Inl e \<Rightarrow> Inl e
      | Inr c \<Rightarrow> Inr (do_clear hp c))"

subsection \<open>Protecting a pointer\<close>

text \<open>
  \<open>do_protect\<close>. The source \<open>to_protect\<close> is an atomic variable outside the registry
  that other threads may overwrite between two loads, so it is given by the values its
  successive loads return: \<open>to_protect k\<close> is what the load numbered \<open>k\<close> (from 0) reads.
  A source nobody writes is a constant function. The loop may run forever on a source
  that never repeats a value, so not returning is the value \<open>None\<close>.
\<close>

partial_function (option) do_protect_loop ::
  "HazardPointers \<Rightarrow> cell_ref \<Rightarrow> (nat \<Rightarrow> ptr) \<Rightarrow> nat \<Rightarrow> ptr \<Rightarrow> (HazardPointers \<times> ptr) option" where
  "do_protect_loop hp c to_protect k saved =
     (if to_protect k \<noteq> saved
      then do_protect_loop (cell_store hp c (to_protect k)) c to_protect (Suc k) (to_protect k)
      else Some (hp, saved))"

definition do_protect ::
  "HazardPointers \<Rightarrow> cell_ref \<Rightarrow> (nat \<Rightarrow> ptr) \<Rightarrow> (HazardPointers \<times> ptr) option" where
  "do_protect hp c to_protect = do_protect_loop hp c to_protect 0 nullptr"

text \<open>\<open>Holder::protect\<close>.\<close>

definition Holder_protect ::
  "HazardPointers \<Rightarrow> Holder \<Rightarrow> (nat \<Rightarrow> ptr) \<Rightarrow> (HazardPointers \<times> ptr) option" where
  "Holder_protect hp h to_protect = do_protect hp (hazard_ptr h) to_protect"

text \<open>The old interface: \<open>protect(thread_id, pos, ptr)\<close>.\<close>

definition protect_old ::
  "HazardPointers \<Rightarrow> nat \<Rightarrow> nat \<Rightarrow> (nat \<Rightarrow> ptr) \<Rightarrow> (fault + HazardPointers \<times> ptr) option" where
  "protect_old hp thread_id pos to_protect =
     (case get_hazard_ptr hp thread_id pos of
        Inl e \<Rightarrow> Some (Inl e)
      | Inr c \<Rightarrow> map_option Inr (do_protect hp c to_protect))"

subsection \<open>Retiring\<close>

text \<open>
  \<open>is_protected\<close>: the two nested loops return true at the first cell equal to \<open>p\<close>.
\<close>

definition is_protected :: "HazardPointers \<Rightarrow> ptr \<Rightarrow> bool" where
  "is_protected hp p =
     list_ex (\<lambda>thread. list_ex (\<lambda>cell. cell = p) (hazard thread)) (threads hp)"

text \<open>\<open>std::vector::erase(it)\<close> at index \<open>it\<close>.\<close>

definition erase :: "'a list \<Rightarrow> nat \<Rightarrow> 'a list" where
  "erase xs it = take it xs @ drop (Suc it) xs"

text \<open>
  \<open>unique_ptr::reset()\<close> deletes the owned object unless the pointer is null. The objects
  deleted so far are logged in the order of their deletion.
\<close>

definition reset :: "ptr \<Rightarrow> ptr list \<Rightarrow> ptr list" where
  "reset p freed = (if p \<noteq> nullptr then freed @ [p] else freed)"

text \<open>
  The \<open>for\<close> loop of \<open>retire\<close> over \<open>data.to_delete\<close>, the iterator as an index; it
  never passes the end, so \<open>it != end()\<close> is \<open>it < length to_del\<close>. An unprotected entry
  is reset and then erased, and the iterator stays; a protected one is stepped over. The
  loop writes no hazard cell, so \<open>is_protected\<close> reads the registry \<open>hp\<close> the loop
  started with. The result is the remaining list and the log of deleted objects.
\<close>

function retire_loop :: "HazardPointers \<Rightarrow> ptr list \<Rightarrow> nat \<Rightarrow> ptr list \<Rightarrow> ptr list \<times> ptr list" where
  "retire_loop hp to_del it freed =
     (if it < length to_del then
        (if \<not> is_protected hp (to_del ! it)
         then retire_loop hp (erase to_del it) it (reset (to_del ! it) freed)
         else retire_loop hp to_del (Suc it) freed)
      else (to_del, freed))"
  by pat_completeness auto
termination
  by (relation "measure (\<lambda>(hp, to_del, it, freed). length to_del - it)") (auto simp: erase_def)

declare retire_loop.simps [simp del]

text \<open>
  \<open>retire\<close>: the registry after the call and the objects it deleted, or the failed
  \<open>CHECK\<close>.
\<close>

definition retire :: "HazardPointers \<Rightarrow> nat \<Rightarrow> ptr \<Rightarrow> fault + HazardPointers \<times> ptr list" where
  "retire hp thread_id p =
     (if \<not> thread_id < length (threads hp) then Inl CheckFailed
      else
        let data = threads hp ! thread_id;
            pushed = (if p \<noteq> nullptr then to_delete data @ [p] else to_delete data);
            (to_del, freed) = retire_loop hp pushed 0 []
        in Inr (hp\<lparr>threads := (threads hp)[thread_id := data\<lparr>to_delete := to_del\<rparr>]\<rparr>, freed))"

text \<open>\<open>to_delete_size_unsafe\<close>.\<close>

definition to_delete_size_unsafe :: "HazardPointers \<Rightarrow> nat" where
  "to_delete_size_unsafe hp = fold (\<lambda>thread res. res + length (to_delete thread)) (threads hp) 0"

subsection \<open>The invariant of the retirement lists\<close>

text \<open>No retirement list of the registry holds a null pointer.\<close>

definition no_null_entries :: "HazardPointers \<Rightarrow> bool" where
  "no_null_entries hp = list_all (\<lambda>thread. nullptr \<notin> set (to_delete thread)) (threads hp)"

subsection \<open>Retiring while other threads write their hazard cells\<close>

text \<open>
  While one thread runs \<open>retire\<close>, the other threads go on storing into their own hazard
  cells (\<open>protect\<close>, \<open>clear\<close>) and changing their own retirement lists; nobody but the
  owner touches the list \<open>retire\<close> works on. All the loop sees of the other threads is
  the value each atomic load of a cell returns. \<open>ob t i\<close> is the value the load of cell
  \<open>i\<close> of thread \<open>t\<close> returns in one call of \<open>is_protected\<close> (for a cell the call does
  not reach because an earlier cell matched: the value it would return). The loops run
  over the vector and the arrays, whose sizes never change.
\<close>

definition is_protected_obs :: "HazardPointers \<Rightarrow> (nat \<Rightarrow> nat \<Rightarrow> ptr) \<Rightarrow> ptr \<Rightarrow> bool" where
  "is_protected_obs hp ob p =
     list_ex (\<lambda>t. list_ex (\<lambda>i. ob t i = p) [0..<length (hazard (threads hp ! t))])
       [0..<length (threads hp)]"

text \<open>
  The loop of \<open>retire\<close> calls \<open>is_protected\<close> once in each iteration; \<open>obs k\<close> gives the
  loads of the call in iteration \<open>k\<close> (from 0).
\<close>

function retire_loop_obs ::
  "(nat \<Rightarrow> nat \<Rightarrow> nat \<Rightarrow> ptr) \<Rightarrow> HazardPointers \<Rightarrow> nat \<Rightarrow> ptr list \<Rightarrow> nat \<Rightarrow> ptr list \<Rightarrow> ptr list \<times> ptr list" where
  "retire_loop_obs obs hp k to_del it freed =
     (if it < length to_del then
        (if \<not> is_protected_obs hp (obs k) (to_del ! it)
         then retire_loop_obs obs hp (Suc k) (erase to_del it) it (reset (to_del ! it) freed)
         else retire_loop_obs obs hp (Suc k) to_del (Suc it) freed)
      else (to_del, freed))"
  by pat_completeness auto
termination
  by (relation "measure (\<lambda>(obs, hp, k, to_del, it, freed). length to_del - it)") (auto simp: erase_def)

declare retire_loop_obs.simps [simp del]

text \<open>\<open>retire\<close>, with the loads of its loop given by \<open>obs\<close>.\<close>

definition retire_obs ::
  "(nat \<Rightarrow> nat \<Rightarrow> nat \<Rightarrow> ptr) \<Rightarrow> HazardPointers \<Rightarrow> nat \<Rightarrow> ptr \<Rightarrow> fault + HazardPointers \<times> ptr list" where
  "retire_obs obs hp thread_id p =
     (if \<not> thread_id < length (threads hp) then Inl CheckFailed
      else
        let data = threads hp ! thread_id;
            pushed = (if p \<noteq> nullptr then to_delete data @ [p] else to_delete data);
            (to_del, freed) = retire_loop_obs obs hp 0 pushed 0 []
        in Inr (hp\<lparr>threads := (threads hp)[thread_id := data\<lparr>to_delete := to_del\<rparr>]\<rparr>, freed))"

subsection \<open>The atomic operations of protect, in order\<close>

text \<open>
  Another thread can look at the hazard cell while \<open>do_protect\<close> runs, so what matters is
  not only the cell's final content but what the cell holds at the instant of each load
  of the source. The atomic operations of a call, in program order: \<open>Load h v\<close> is a
  load of the source that returned \<open>v\<close> at an instant when the hazard cell held \<open>h\<close>;
  \<open>Store v\<close> is the store of \<open>v\<close> into the hazard cell.
\<close>

datatype event = Load ptr ptr | Store ptr

text \<open>
  \<open>do_protect\<close> again, the same loop on the same registry, which also appends each
  operation to the list \<open>evs\<close> when it performs it: the load of the loop condition,
  with the cell's content read off the registry as it is at that instant, and the store
  of the loop body.
\<close>

partial_function (option) do_protect_loop_ev ::
  "HazardPointers \<Rightarrow> cell_ref \<Rightarrow> (nat \<Rightarrow> ptr) \<Rightarrow> nat \<Rightarrow> ptr \<Rightarrow> event list
     \<Rightarrow> (HazardPointers \<times> ptr \<times> event list) option" where
  "do_protect_loop_ev hp c to_protect k saved evs =
     (if to_protect k \<noteq> saved
      then do_protect_loop_ev (cell_store hp c (to_protect k)) c to_protect (Suc k) (to_protect k)
             (evs @ [Load (cell_load hp c) (to_protect k), Store (to_protect k)])
      else Some (hp, saved, evs @ [Load (cell_load hp c) (to_protect k)]))"

definition do_protect_ev ::
  "HazardPointers \<Rightarrow> cell_ref \<Rightarrow> (nat \<Rightarrow> ptr) \<Rightarrow> (HazardPointers \<times> ptr \<times> event list) option" where
  "do_protect_ev hp c to_protect = do_protect_loop_ev hp c to_protect 0 nullptr []"

subsection \<open>Construction: proofs\<close>

lemma ctor_threads:
  "threads (HazardPointers_ctor N raw n) = replicate n \<lparr>hazard = replicate N nullptr, to_delete = []\<rparr>"
  by (simp add: HazardPointers_ctor_def Let_def comp_def map_replicate_const)

text \<open>
  Claim C8. After construction with \<open>threads_n\<close> the registry holds exactly
  \<open>threads_n\<close> per-thread records; each one's hazard array has \<open>MaxPointersN\<close> cells, all
  null, and an empty retirement list, whatever the cells held before initialisation.
\<close>

theorem ctor_all_null:
  "HazardPointers_ctor N raw threads_n =
     \<lparr>threads = replicate threads_n \<lparr>hazard = replicate N nullptr, to_delete = []\<rparr>\<rparr>
   \<and> length (threads (HazardPointers_ctor N raw threads_n)) = threads_n"
  by (simp add: HazardPointers_ctor_def Let_def comp_def map_replicate_const)

subsection \<open>The sweep of retire\<close>

lemma retire_loop_unfold:
  "it \<le> length to_del \<Longrightarrow>
   retire_loop hp to_del it freed =
     (take it to_del @ filter (is_protected hp) (drop it to_del),
      freed @ filter (\<lambda>p. p \<noteq> nullptr \<and> \<not> is_protected hp p) (drop it to_del))"
proof (induction hp to_del it freed rule: retire_loop.induct)
  case (1 hp to_del it freed)
  show ?case
  proof (cases "it < length to_del")
    case False
    with "1.prems" show ?thesis
      by (subst retire_loop.simps) simp
  next
    case True
    then have split: "drop it to_del = to_del ! it # drop (Suc it) to_del"
      by (simp add: Cons_nth_drop_Suc)
    show ?thesis
    proof (cases "is_protected hp (to_del ! it)")
      case True
      with \<open>it < length to_del\<close> "1.IH"(2) split show ?thesis
        by (subst retire_loop.simps) (simp add: take_Suc_conv_app_nth)
    next
      case False
      have len: "it \<le> length (erase to_del it)"
        using \<open>it < length to_del\<close> by (simp add: erase_def)
      have tk: "take it (erase to_del it) = take it to_del"
        using \<open>it < length to_del\<close> by (simp add: erase_def)
      have dr: "drop it (erase to_del it) = drop (Suc it) to_del"
        using \<open>it < length to_del\<close> by (simp add: erase_def)
      from False \<open>it < length to_del\<close> "1.IH"(1)[OF _ _ len] split tk dr show ?thesis
        by (subst retire_loop.simps) (simp add: reset_def)
    qed
  qed
qed

lemma is_protected_iff:
  "is_protected hp p \<longleftrightarrow>
     (\<exists>t < length (threads hp). \<exists>i < length (hazard (threads hp ! t)). cell_load hp (t, i) = p)"
proof
  assume "is_protected hp p"
  then obtain thread where th: "thread \<in> set (threads hp)" and p: "p \<in> set (hazard thread)"
    by (auto simp: is_protected_def list_ex_iff)
  from th obtain t where t: "t < length (threads hp)" "threads hp ! t = thread"
    by (auto simp: in_set_conv_nth)
  from p obtain i where i: "i < length (hazard thread)" "hazard thread ! i = p"
    by (auto simp: in_set_conv_nth)
  from t i have "i < length (hazard (threads hp ! t)) \<and> cell_load hp (t, i) = p"
    by (simp add: cell_load_def)
  with t(1) show "\<exists>t < length (threads hp). \<exists>i < length (hazard (threads hp ! t)). cell_load hp (t, i) = p"
    by blast
next
  assume "\<exists>t < length (threads hp). \<exists>i < length (hazard (threads hp ! t)). cell_load hp (t, i) = p"
  then obtain t i where t: "t < length (threads hp)" and i: "i < length (hazard (threads hp ! t))"
    and v: "cell_load hp (t, i) = p"
    by blast
  from t have "threads hp ! t \<in> set (threads hp)" by simp
  moreover from i v have "p \<in> set (hazard (threads hp ! t))"
    by (auto simp: cell_load_def)
  ultimately show "is_protected hp p"
    unfolding is_protected_def list_ex_iff by blast
qed

lemma retire_eq:
  "thread_id < length (threads hp) \<Longrightarrow>
   retire hp thread_id p =
     Inr (hp\<lparr>threads := (threads hp)[thread_id := (threads hp ! thread_id)
             \<lparr>to_delete := filter (is_protected hp)
                (to_delete (threads hp ! thread_id) @ (if p \<noteq> nullptr then [p] else []))\<rparr>]\<rparr>,
          filter (\<lambda>q. q \<noteq> nullptr \<and> \<not> is_protected hp q)
            (to_delete (threads hp ! thread_id) @ (if p \<noteq> nullptr then [p] else [])))"
  by (simp add: retire_def Let_def retire_loop_unfold)

lemma retire_out_of_range:
  "\<not> thread_id < length (threads hp) \<Longrightarrow> retire hp thread_id p = Inl CheckFailed"
  by (simp add: retire_def)

subsection \<open>Retirement lists hold no null pointer: proofs\<close>

lemma no_null_entries_nth:
  "no_null_entries hp \<Longrightarrow> t < length (threads hp) \<Longrightarrow> nullptr \<notin> set (to_delete (threads hp ! t))"
  by (simp add: no_null_entries_def list_all_length)

lemma no_null_entries_update:
  assumes "no_null_entries hp" and "nullptr \<notin> set (to_delete td)"
  shows "no_null_entries (hp\<lparr>threads := (threads hp)[t := td]\<rparr>)"
proof -
  have "set ((threads hp)[t := td]) \<subseteq> insert td (set (threads hp))"
    by (rule set_update_subset_insert)
  with assms show ?thesis
    by (auto simp: no_null_entries_def list_all_iff)
qed

lemma no_null_entries_cell_store:
  assumes "no_null_entries hp"
  shows "no_null_entries (cell_store hp c v)"
proof (cases "fst c < length (threads hp)")
  case True
  with assms have "nullptr \<notin> set (to_delete (threads hp ! fst c))"
    by (rule no_null_entries_nth)
  then have "nullptr \<notin> set (to_delete ((threads hp ! fst c)\<lparr>hazard := (hazard (threads hp ! fst c))[snd c := v]\<rparr>))"
    by simp
  with assms show ?thesis
    unfolding cell_store_def by (rule no_null_entries_update)
next
  case False
  then have "cell_store hp c v = hp"
    by (simp add: cell_store_def list_update_beyond)
  with assms show ?thesis by simp
qed

lemma no_null_entries_retire:
  assumes inv: "no_null_entries hp" and r: "retire hp thread_id p = Inr (hp', freed)"
  shows "no_null_entries hp'"
proof -
  from r have lt: "thread_id < length (threads hp)"
    by (cases "thread_id < length (threads hp)") (simp_all add: retire_out_of_range)
  let ?td = "threads hp ! thread_id"
  let ?kept = "filter (is_protected hp) (to_delete ?td @ (if p \<noteq> nullptr then [p] else []))"
  from inv lt have "nullptr \<notin> set (to_delete ?td)" by (rule no_null_entries_nth)
  then have "nullptr \<notin> set (to_delete (?td\<lparr>to_delete := ?kept\<rparr>))" by auto
  with inv have "no_null_entries (hp\<lparr>threads := (threads hp)[thread_id := ?td\<lparr>to_delete := ?kept\<rparr>]\<rparr>)"
    by (rule no_null_entries_update)
  moreover from r lt have "hp' = hp\<lparr>threads := (threads hp)[thread_id := ?td\<lparr>to_delete := ?kept\<rparr>]\<rparr>"
    by (simp add: retire_eq)
  ultimately show ?thesis by simp
qed

subsection \<open>The protect loop\<close>

lemma do_protect_loop_exit:
  "to_protect k = saved \<Longrightarrow> do_protect_loop hp c to_protect k saved = Some (hp, saved)"
  using do_protect_loop.simps [of hp c to_protect k saved] by simp

lemma do_protect_loop_step:
  "to_protect k \<noteq> saved \<Longrightarrow>
   do_protect_loop hp c to_protect k saved =
     do_protect_loop (cell_store hp c (to_protect k)) c to_protect (Suc k) (to_protect k)"
  using do_protect_loop.simps [of hp c to_protect k saved] by simp

lemma do_protect_loop_run:
  "(\<forall>j<d. src (k + j) \<noteq> (if j = 0 then saved else src (k + j - 1))) \<Longrightarrow>
   src (k + d) = (if d = 0 then saved else src (k + d - 1)) \<Longrightarrow>
   do_protect_loop hp c src k saved =
     Some (fold (\<lambda>v h. cell_store h c v) (map src [k..<k + d]) hp, src (k + d))"
proof (induction d arbitrary: hp k saved)
  case 0
  then show ?case by (simp add: do_protect_loop_exit)
next
  case (Suc d)
  from Suc.prems(1) have ne: "src k \<noteq> saved"
    by (metis add.right_neutral zero_less_Suc)
  have A: "\<forall>j<d. src (Suc k + j) \<noteq> (if j = 0 then src k else src (Suc k + j - 1))"
  proof (intro allI impI)
    fix j assume "j < d"
    with Suc.prems(1) have "src (k + Suc j) \<noteq> (if Suc j = 0 then saved else src (k + Suc j - 1))"
      by (metis Suc_less_eq)
    then show "src (Suc k + j) \<noteq> (if j = 0 then src k else src (Suc k + j - 1))"
      by (cases j) simp_all
  qed
  have B: "src (Suc k + d) = (if d = 0 then src k else src (Suc k + d - 1))"
    using Suc.prems(2) by (cases d) simp_all
  have up: "[k..<k + Suc d] = k # [Suc k..<Suc k + d]"
    by (simp add: upt_conv_Cons del: upt_Suc)
  have "do_protect_loop hp c src k saved =
          do_protect_loop (cell_store hp c (src k)) c src (Suc k) (src k)"
    using ne by (rule do_protect_loop_step [where to_protect = src and k = k and saved = saved])
  also have "\<dots> =
          Some (fold (\<lambda>v h. cell_store h c v) (map src [Suc k..<Suc k + d]) (cell_store hp c (src k)),
                src (Suc k + d))"
    by (rule Suc.IH [OF A B])
  also have "\<dots> = Some (fold (\<lambda>v h. cell_store h c v) (map src [k..<k + Suc d]) hp, src (k + Suc d))"
    unfolding up by simp
  finally show ?case .
qed

lemma do_protect_loop_Some_exit:
  assumes "do_protect_loop hp c src k saved = Some r"
  shows "\<exists>d. src (k + d) = (if d = 0 then saved else src (k + d - 1))"
proof -
  define P where "P = (\<lambda>(hp::HazardPointers) (c::cell_ref) (src::nat \<Rightarrow> ptr) k saved
      (r::HazardPointers \<times> ptr). \<exists>d. src (k + d) = (if d = 0 then saved else src (k + d - 1)))"
  have "P hp c src k saved r"
  proof (rule do_protect_loop.raw_induct [where P = P, OF _ assms])
    fix f hp c src k saved r
    assume IH: "\<And>hp c src k saved r. f hp c src k saved = Some r \<Longrightarrow> P hp c src k saved r"
      and body: "(if src k \<noteq> saved then f (cell_store hp c (src k)) c src (Suc k) (src k)
                  else Some (hp, saved)) = Some r"
    show "P hp c src k saved r"
    proof (cases "src k = saved")
      case True
      then have "src (k + 0) = (if (0::nat) = 0 then saved else src (k + 0 - 1))" by simp
      then show ?thesis unfolding P_def by blast
    next
      case False
      with body have "f (cell_store hp c (src k)) c src (Suc k) (src k) = Some r"
        by simp
      then have "P (cell_store hp c (src k)) c src (Suc k) (src k) r" by (rule IH)
      then obtain d where d: "src (Suc k + d) = (if d = 0 then src k else src (Suc k + d - 1))"
        unfolding P_def by blast
      then have "src (k + Suc d) = (if Suc d = 0 then saved else src (k + Suc d - 1))"
        by (cases d) simp_all
      then show ?thesis unfolding P_def by blast
    qed
  qed
  then show ?thesis by (simp add: P_def)
qed

lemma do_protect_eq:
  "do_protect hp c src =
     (if src 0 = nullptr then Some (hp, nullptr)
      else if \<exists>n. src (Suc n) = src n
      then Some (fold (\<lambda>v h. cell_store h c v) (map src [0..<Suc (LEAST n. src (Suc n) = src n)]) hp,
                 src (LEAST n. src (Suc n) = src n))
      else None)"
proof (cases "src 0 = nullptr")
  case True
  then show ?thesis by (simp add: do_protect_def do_protect_loop_exit)
next
  case null: False
  show ?thesis
  proof (cases "\<exists>n. src (Suc n) = src n")
    case True
    define n where "n = (LEAST n. src (Suc n) = src n)"
    from True have eq: "src (Suc n) = src n"
      unfolding n_def by (rule LeastI_ex)
    have least: "\<And>m. m < n \<Longrightarrow> src (Suc m) \<noteq> src m"
      unfolding n_def by (rule not_less_Least)
    have A: "\<forall>j<Suc n. src (0 + j) \<noteq> (if j = 0 then nullptr else src (0 + j - 1))"
    proof (intro allI impI)
      fix j assume "j < Suc n"
      show "src (0 + j) \<noteq> (if j = 0 then nullptr else src (0 + j - 1))"
      proof (cases j)
        case 0
        with null show ?thesis by simp
      next
        case (Suc m)
        with \<open>j < Suc n\<close> have "m < n" by simp
        then have "src (Suc m) \<noteq> src m" by (rule least)
        with Suc show ?thesis by simp
      qed
    qed
    have B: "src (0 + Suc n) = (if Suc n = 0 then nullptr else src (0 + Suc n - 1))"
      using eq by simp
    have "do_protect_loop hp c src 0 nullptr =
            Some (fold (\<lambda>v h. cell_store h c v) (map src [0..<0 + Suc n]) hp, src (0 + Suc n))"
      by (rule do_protect_loop_run [OF A B])
    with True null eq show ?thesis
      by (simp add: do_protect_def n_def)
  next
    case False
    have "do_protect_loop hp c src 0 nullptr = None"
    proof (cases "do_protect_loop hp c src 0 nullptr")
      case None
      then show ?thesis .
    next
      case (Some r)
      then obtain d where d: "src (0 + d) = (if d = 0 then nullptr else src (0 + d - 1))"
        by (blast dest: do_protect_loop_Some_exit)
      show ?thesis
      proof (cases d)
        case 0
        with d null show ?thesis by simp
      next
        case (Suc m)
        with d have "src (Suc m) = src m" by simp
        with False show ?thesis by blast
      qed
    qed
    with False null show ?thesis by (simp add: do_protect_def)
  qed
qed

lemma cell_load_store_same:
  "fst c < length (threads hp) \<Longrightarrow> snd c < length (hazard (threads hp ! fst c)) \<Longrightarrow>
   cell_load (cell_store hp c v) c = v"
  by (simp add: cell_load_def cell_store_def)

lemma cell_store_overwrite: "cell_store (cell_store hp c v) c w = cell_store hp c w"
proof (cases "fst c < length (threads hp)")
  case True
  then show ?thesis by (simp add: cell_store_def)
next
  case False
  then show ?thesis by (simp add: cell_store_def list_update_beyond)
qed

lemma cell_store_same: "cell_load hp c = v \<Longrightarrow> cell_store hp c v = hp"
  by (auto simp: cell_load_def cell_store_def)

lemma cell_store_dims:
  "length (threads (cell_store hp c v)) = length (threads hp)"
  "length (hazard (threads (cell_store hp c v) ! t)) = length (hazard (threads hp ! t))"
  by (cases "fst c < length (threads hp)"; cases "t = fst c";
      simp add: cell_store_def list_update_beyond)+

subsection \<open>Claims about protect\<close>

text \<open>
  A source that holds 5 at the first load and 7 from then on: 5 is published, then 7,
  and 7 is returned after the third load.
\<close>

lemma do_protect_example:
  "do_protect \<lparr>threads = [\<lparr>hazard = [3], to_delete = []\<rparr>]\<rparr> (0, 0) (\<lambda>k. if k = 0 then 5 else 7)
     = Some (\<lparr>threads = [\<lparr>hazard = [7], to_delete = []\<rparr>]\<rparr>, 7)"
  by (simp add: do_protect_def do_protect_loop.simps cell_store_def)

text \<open>
  Claim C9. \<open>protect\<close> on a source whose first load returns null stores nothing: the
  registry it leaves is the registry it found, so a value an earlier \<open>protect\<close> published
  into the same cell (no \<open>clear\<close> in between) is still published after the call returned
  null.
\<close>

theorem protect_null_source_writes_nothing:
  "src 0 = nullptr \<Longrightarrow>
   Holder_protect hp h src = Some (hp, nullptr) \<and> do_protect hp c src = Some (hp, nullptr)"
  by (simp add: Holder_protect_def do_protect_def do_protect_loop_exit)

theorem protect_null_source_writes_nothing_witness:
  "Holder_protect \<lparr>threads = [\<lparr>hazard = [0], to_delete = []\<rparr>]\<rparr> \<lparr>hazard_ptr = (0, 0)\<rparr> (\<lambda>k. 5)
     = Some (\<lparr>threads = [\<lparr>hazard = [5], to_delete = []\<rparr>]\<rparr>, 5)
   \<and> Holder_protect \<lparr>threads = [\<lparr>hazard = [5], to_delete = []\<rparr>]\<rparr> \<lparr>hazard_ptr = (0, 0)\<rparr> (\<lambda>k. nullptr)
     = Some (\<lparr>threads = [\<lparr>hazard = [5], to_delete = []\<rparr>]\<rparr>, nullptr)
   \<and> cell_load \<lparr>threads = [\<lparr>hazard = [5], to_delete = []\<rparr>]\<rparr> (0, 0) = 5"
  using protect_null_source_writes_nothing
    [of "\<lambda>k. nullptr" "\<lparr>threads = [\<lparr>hazard = [5], to_delete = []\<rparr>]\<rparr>" "\<lparr>hazard_ptr = (0, 0)\<rparr>" "(0, 0)"]
  by (simp add: Holder_protect_def do_protect_def do_protect_loop.simps cell_store_def cell_load_def)

subsection \<open>Claims about clear\<close>

text \<open>
  Claim C6. \<open>clear\<close> stores null into the scope's cell. Clearing twice leaves the registry
  that clearing once leaves, and clearing a cell that already holds null leaves the registry
  as it was. The same holds for \<open>do_clear\<close> of the old interface.
\<close>

theorem clear_idempotent:
  "Holder_clear (Holder_clear hp h) h = Holder_clear hp h
   \<and> do_clear (do_clear hp c) c = do_clear hp c
   \<and> (cell_load hp (hazard_ptr h) = nullptr \<longrightarrow> Holder_clear hp h = hp)
   \<and> (cell_load hp c = nullptr \<longrightarrow> do_clear hp c = hp)
   \<and> (fst c < length (threads hp) \<and> snd c < length (hazard (threads hp ! fst c)) \<longrightarrow>
        cell_load (do_clear hp c) c = nullptr \<and> cell_load (Holder_clear hp \<lparr>hazard_ptr = c\<rparr>) c = nullptr)"
  by (simp add: Holder_clear_def do_clear_def cell_store_overwrite cell_store_same cell_load_store_same)

theorem clear_idempotent_witness:
  "cell_load \<lparr>threads = [\<lparr>hazard = [0, 7], to_delete = [7]\<rparr>]\<rparr> (0, 0) = nullptr
   \<and> Holder_clear \<lparr>threads = [\<lparr>hazard = [0, 7], to_delete = [7]\<rparr>]\<rparr> \<lparr>hazard_ptr = (0, 0)\<rparr>
       = \<lparr>threads = [\<lparr>hazard = [0, 7], to_delete = [7]\<rparr>]\<rparr>
   \<and> do_clear \<lparr>threads = [\<lparr>hazard = [0, 7], to_delete = [7]\<rparr>]\<rparr> (0, 0)
       = \<lparr>threads = [\<lparr>hazard = [0, 7], to_delete = [7]\<rparr>]\<rparr>
   \<and> Holder_clear \<lparr>threads = [\<lparr>hazard = [0, 7], to_delete = [7]\<rparr>]\<rparr> \<lparr>hazard_ptr = (0, 1)\<rparr>
       = \<lparr>threads = [\<lparr>hazard = [0, 0], to_delete = [7]\<rparr>]\<rparr>
   \<and> Holder_clear (Holder_clear \<lparr>threads = [\<lparr>hazard = [0, 7], to_delete = [7]\<rparr>]\<rparr> \<lparr>hazard_ptr = (0, 1)\<rparr>)
         \<lparr>hazard_ptr = (0, 1)\<rparr>
       = \<lparr>threads = [\<lparr>hazard = [0, 0], to_delete = [7]\<rparr>]\<rparr>
   \<and> cell_load (do_clear \<lparr>threads = [\<lparr>hazard = [0, 7], to_delete = [7]\<rparr>]\<rparr> (0, 1)) (0, 1) = nullptr"
  using clear_idempotent [of "\<lparr>threads = [\<lparr>hazard = [0, 7], to_delete = [7]\<rparr>]\<rparr>" "\<lparr>hazard_ptr = (0, 0)\<rparr>" "(0, 0)"]
    clear_idempotent [of "\<lparr>threads = [\<lparr>hazard = [0, 7], to_delete = [7]\<rparr>]\<rparr>" "\<lparr>hazard_ptr = (0, 1)\<rparr>" "(0, 1)"]
  by (simp add: Holder_clear_def do_clear_def cell_store_def cell_load_def)

subsection \<open>Claims about the preconditions\<close>

text \<open>
  Claim C3, as amended. With a thread index that is not below the number of threads,
  \<open>get_holder\<close>, the old-interface \<open>protect\<close> and \<open>clear\<close>, and \<open>retire\<close> all end in the
  failed \<open>CHECK\<close>, whatever the position is, and nothing is stored.
\<close>

theorem bad_thread_id_check_fails:
  "\<not> thread_id < length (threads hp) \<Longrightarrow>
   get_holder hp thread_id pos = Inl CheckFailed
   \<and> protect_old hp thread_id pos src = Some (Inl CheckFailed)
   \<and> clear_old hp thread_id pos = Inl CheckFailed
   \<and> retire hp thread_id p = Inl CheckFailed"
  by (simp add: get_holder_def protect_old_def clear_old_def get_hazard_ptr_def retire_def)

theorem bad_thread_id_check_fails_witness:
  "\<not> (1::nat) < length (threads (HazardPointers_ctor 1 (\<lambda>t i. 9) 1))
   \<and> get_holder (HazardPointers_ctor 1 (\<lambda>t i. 9) 1) 1 0 = Inl CheckFailed
   \<and> protect_old (HazardPointers_ctor 1 (\<lambda>t i. 9) 1) 1 0 (\<lambda>k. 5) = Some (Inl CheckFailed)
   \<and> clear_old (HazardPointers_ctor 1 (\<lambda>t i. 9) 1) 1 0 = Inl CheckFailed
   \<and> retire (HazardPointers_ctor 1 (\<lambda>t i. 9) 1) 1 5 = Inl CheckFailed"
proof -
  have h: "\<not> (1::nat) < length (threads (HazardPointers_ctor 1 (\<lambda>t i. 9) 1))"
    by (simp add: ctor_threads)
  show ?thesis
    using h bad_thread_id_check_fails [OF h, of 0 "\<lambda>k. 5" 5] by simp
qed

text \<open>
  Claim C3 as stated also promises the abort for a position that is not below
  \<open>MaxPointersN\<close>. It fails there: in a registry of one thread with one cell, position 1
  with the valid thread index 0 passes the \<open>CHECK\<close> and reaches the unchecked array access.
\<close>

theorem bad_slot_index_not_checked:
  "(0::nat) < length (threads (HazardPointers_ctor 1 (\<lambda>t i. 9) 1))
   \<and> \<not> (1::nat) < length (hazard (threads (HazardPointers_ctor 1 (\<lambda>t i. 9) 1) ! 0))
   \<and> get_holder (HazardPointers_ctor 1 (\<lambda>t i. 9) 1) 0 1 = Inl ArrayOutOfBounds
   \<and> get_holder (HazardPointers_ctor 1 (\<lambda>t i. 9) 1) 0 1 \<noteq> Inl CheckFailed
   \<and> clear_old (HazardPointers_ctor 1 (\<lambda>t i. 9) 1) 0 1 \<noteq> Inl CheckFailed
   \<and> protect_old (HazardPointers_ctor 1 (\<lambda>t i. 9) 1) 0 1 (\<lambda>k. 5) \<noteq> Some (Inl CheckFailed)"
  by (simp add: ctor_threads get_holder_def clear_old_def protect_old_def get_hazard_ptr_def)

subsection \<open>Claims about moving a scope\<close>

text \<open>
  Claim C5 at a concrete input. In a registry of one thread with one cell, a holder of
  cell \<open>(0, 0)\<close> protects the pointer 5 and is then moved from. The new holder refers to
  the cell, which holds 5; destroying the moved-from holder stores null into that cell.
\<close>

theorem moved_from_holder_still_clears:
  "get_holder (HazardPointers_ctor 1 (\<lambda>t i. 9) 1) 0 0 = Inr \<lparr>hazard_ptr = (0, 0)\<rparr>
   \<and> Holder_protect (HazardPointers_ctor 1 (\<lambda>t i. 9) 1) \<lparr>hazard_ptr = (0, 0)\<rparr> (\<lambda>k. 5)
       = Some (\<lparr>threads = [\<lparr>hazard = [5], to_delete = []\<rparr>]\<rparr>, 5)
   \<and> Holder_move \<lparr>hazard_ptr = (0, 0)\<rparr> = (\<lparr>hazard_ptr = (0, 0)\<rparr>, \<lparr>hazard_ptr = (0, 0)\<rparr>)
   \<and> cell_load \<lparr>threads = [\<lparr>hazard = [5], to_delete = []\<rparr>]\<rparr>
         (hazard_ptr (snd (Holder_move \<lparr>hazard_ptr = (0, 0)\<rparr>))) = 5
   \<and> cell_load (Holder_dtor \<lparr>threads = [\<lparr>hazard = [5], to_delete = []\<rparr>]\<rparr>
                    (fst (Holder_move \<lparr>hazard_ptr = (0, 0)\<rparr>)))
         (hazard_ptr (snd (Holder_move \<lparr>hazard_ptr = (0, 0)\<rparr>))) = nullptr"
  by (simp add: ctor_threads get_holder_def get_hazard_ptr_def Holder_protect_def do_protect_def
      do_protect_loop.simps Holder_move_def Holder_dtor_def Holder_clear_def cell_store_def cell_load_def)

lemma moved_from_holder_same_cell:
  "hazard_ptr (fst (Holder_move h)) = hazard_ptr (snd (Holder_move h))
   \<and> Holder_dtor hp (fst (Holder_move h)) = Holder_clear hp (snd (Holder_move h))"
  by (simp add: Holder_move_def Holder_dtor_def Holder_clear_def)

subsection \<open>Claims about retire\<close>

text \<open>
  The case of \<open>retire\<close> running with no other thread writing a hazard cell meanwhile:
  every scan then reads the registry as it was when the call started, and the list keeps
  exactly the entries \<open>is_protected\<close> finds there. The statement for scans that read what
  other threads store in the meantime is claim C4 below.
\<close>

lemma retire_alone_keeps_protected:
  assumes "thread_id < length (threads hp)" and "no_null_entries hp"
  shows "retire hp thread_id p =
     Inr (hp\<lparr>threads := (threads hp)[thread_id := (threads hp ! thread_id)
             \<lparr>to_delete := filter (is_protected hp)
                (to_delete (threads hp ! thread_id) @ (if p \<noteq> nullptr then [p] else []))\<rparr>]\<rparr>,
          filter (\<lambda>q. \<not> is_protected hp q)
            (to_delete (threads hp ! thread_id) @ (if p \<noteq> nullptr then [p] else [])))"
proof -
  from assms(2) assms(1) have "nullptr \<notin> set (to_delete (threads hp ! thread_id))"
    by (rule no_null_entries_nth)
  then have "filter (\<lambda>q. q \<noteq> nullptr \<and> \<not> is_protected hp q)
               (to_delete (threads hp ! thread_id) @ (if p \<noteq> nullptr then [p] else []))
           = filter (\<lambda>q. \<not> is_protected hp q)
               (to_delete (threads hp ! thread_id) @ (if p \<noteq> nullptr then [p] else []))"
    by (intro filter_cong refl) (auto intro!: gr0I)
  with assms(1) show ?thesis by (simp add: retire_eq)
qed

text \<open>
  Claim C7. For a thread index in range, \<open>retire\<close> with a null pointer appends nothing:
  it runs the loop on the retirement list as it stands, which keeps the protected entries
  and deletes the others.
\<close>

theorem retire_null_only_sweeps:
  assumes "thread_id < length (threads hp)"
  shows "retire hp thread_id nullptr =
     Inr (hp\<lparr>threads := (threads hp)[thread_id := (threads hp ! thread_id)
             \<lparr>to_delete := fst (retire_loop hp (to_delete (threads hp ! thread_id)) 0 [])\<rparr>]\<rparr>,
          snd (retire_loop hp (to_delete (threads hp ! thread_id)) 0 []))
   \<and> fst (retire_loop hp (to_delete (threads hp ! thread_id)) 0 [])
       = filter (is_protected hp) (to_delete (threads hp ! thread_id))
   \<and> snd (retire_loop hp (to_delete (threads hp ! thread_id)) 0 [])
       = filter (\<lambda>q. q \<noteq> nullptr \<and> \<not> is_protected hp q) (to_delete (threads hp ! thread_id))"
  using assms by (simp add: retire_def Let_def split_beta retire_loop_unfold)

theorem retire_null_only_sweeps_witness:
  "(0::nat) < length (threads \<lparr>threads = [\<lparr>hazard = [4], to_delete = [3, 4, 6]\<rparr>]\<rparr>)
   \<and> retire \<lparr>threads = [\<lparr>hazard = [4], to_delete = [3, 4, 6]\<rparr>]\<rparr> 0 nullptr
     = Inr (\<lparr>threads = [\<lparr>hazard = [4], to_delete = [4]\<rparr>]\<rparr>, [3, 6])"
proof -
  let ?hp = "\<lparr>threads = [\<lparr>hazard = [4], to_delete = [3, 4, 6]\<rparr>]\<rparr>"
  have h1: "(0::nat) < length (threads ?hp)" by simp
  show ?thesis
    using h1 retire_null_only_sweeps [OF h1]
    by (simp add: is_protected_def)
qed

lemma no_null_entries_fold_store:
  "no_null_entries hp \<Longrightarrow> no_null_entries (fold (\<lambda>v h. cell_store h c v) vs hp)"
  by (induction vs arbitrary: hp) (simp_all add: no_null_entries_cell_store)

lemma no_null_entries_do_protect:
  assumes "no_null_entries hp" and "do_protect hp c src = Some (hp', r)"
  shows "no_null_entries hp'"
proof -
  have "\<exists>vs. hp' = fold (\<lambda>v h. cell_store h c v) vs hp"
  proof (cases "src 0 = nullptr")
    case True
    with assms(2) have "hp' = fold (\<lambda>v h. cell_store h c v) [] hp"
      by (simp add: do_protect_eq)
    then show ?thesis by blast
  next
    case False
    show ?thesis
    proof (cases "\<exists>n. src (Suc n) = src n")
      case True
      with assms(2) False
      have "hp' = fold (\<lambda>v h. cell_store h c v) (map src [0..<Suc (LEAST n. src (Suc n) = src n)]) hp"
        by (simp add: do_protect_eq del: upt_Suc)
      then show ?thesis by blast
    next
      case no: False
      with assms(2) False show ?thesis by (simp add: do_protect_eq)
    qed
  qed
  with assms(1) show ?thesis
    by (auto simp: no_null_entries_fold_store)
qed

lemma no_null_entries_ctor: "no_null_entries (HazardPointers_ctor N raw threads_n)"
  by (simp add: no_null_entries_def ctor_threads list_all_length)

lemma retire_loop_scans_entries_only:
  assumes "\<forall>q \<in> set to_del. is_protected hp1 q = is_protected hp2 q" and "it \<le> length to_del"
  shows "retire_loop hp1 to_del it freed = retire_loop hp2 to_del it freed"
proof -
  from assms(1) have "\<forall>q \<in> set (drop it to_del). is_protected hp1 q = is_protected hp2 q"
    by (auto dest: in_set_dropD)
  then have "filter (is_protected hp1) (drop it to_del) = filter (is_protected hp2) (drop it to_del)"
    and "filter (\<lambda>p. p \<noteq> nullptr \<and> \<not> is_protected hp1 p) (drop it to_del)
       = filter (\<lambda>p. p \<noteq> nullptr \<and> \<not> is_protected hp2 p) (drop it to_del)"
    by (auto intro!: filter_cong)
  with assms(2) show ?thesis by (simp add: retire_loop_unfold)
qed

text \<open>
  Claim C10. No retirement list holds a null pointer: the constructor establishes this,
  and \<open>retire\<close> (with a null or a non-null pointer), \<open>protect\<close> and \<open>clear\<close> in both
  interfaces preserve it; \<open>to_delete_size_unsafe\<close> only reads the registry. In
  particular the list \<open>retire\<close> runs its loop on holds no null pointer, and by
  \<open>retire_loop_scans_entries_only\<close> the loop asks \<open>is_protected\<close> about entries of that
  list only.
\<close>

theorem retirement_lists_never_hold_null:
  "no_null_entries (HazardPointers_ctor N raw threads_n)
   \<and> (no_null_entries hp \<longrightarrow>
        (\<forall>hp' freed. retire hp thread_id p = Inr (hp', freed) \<longrightarrow> no_null_entries hp')
      \<and> (\<forall>hp' r. Holder_protect hp h src = Some (hp', r) \<longrightarrow> no_null_entries hp')
      \<and> (\<forall>hp' r. protect_old hp thread_id pos src = Some (Inr (hp', r)) \<longrightarrow> no_null_entries hp')
      \<and> no_null_entries (Holder_clear hp h)
      \<and> (\<forall>hp'. clear_old hp thread_id pos = Inr hp' \<longrightarrow> no_null_entries hp')
      \<and> (thread_id < length (threads hp) \<longrightarrow>
           nullptr \<notin> set (to_delete (threads hp ! thread_id) @ (if p \<noteq> nullptr then [p] else []))))"
proof -
  have ret: "\<And>hp' freed. no_null_entries hp \<Longrightarrow> retire hp thread_id p = Inr (hp', freed) \<Longrightarrow> no_null_entries hp'"
    by (rule no_null_entries_retire)
  have hprot: "\<And>hp' r. no_null_entries hp \<Longrightarrow> Holder_protect hp h src = Some (hp', r) \<Longrightarrow> no_null_entries hp'"
    unfolding Holder_protect_def by (rule no_null_entries_do_protect)
  have oprot: "\<And>hp' r. no_null_entries hp \<Longrightarrow> protect_old hp thread_id pos src = Some (Inr (hp', r))
      \<Longrightarrow> no_null_entries hp'"
    unfolding protect_old_def
    by (auto split: sum.splits dest: no_null_entries_do_protect)
  have hclear: "no_null_entries hp \<Longrightarrow> no_null_entries (Holder_clear hp h)"
    unfolding Holder_clear_def by (rule no_null_entries_cell_store)
  have oclear: "\<And>hp'. no_null_entries hp \<Longrightarrow> clear_old hp thread_id pos = Inr hp' \<Longrightarrow> no_null_entries hp'"
    unfolding clear_old_def do_clear_def
    by (auto split: sum.splits simp: no_null_entries_cell_store)
  have pushed: "no_null_entries hp \<Longrightarrow> thread_id < length (threads hp) \<Longrightarrow>
      nullptr \<notin> set (to_delete (threads hp ! thread_id) @ (if p \<noteq> nullptr then [p] else []))"
    using no_null_entries_nth [of hp thread_id] by auto
  from no_null_entries_ctor ret hprot oprot hclear oclear pushed show ?thesis
    by blast
qed

theorem retirement_lists_never_hold_null_witness:
  "no_null_entries \<lparr>threads = [\<lparr>hazard = [4], to_delete = [3, 4]\<rparr>]\<rparr>
   \<and> (0::nat) < length (threads \<lparr>threads = [\<lparr>hazard = [4], to_delete = [3, 4]\<rparr>]\<rparr>)
   \<and> retire \<lparr>threads = [\<lparr>hazard = [4], to_delete = [3, 4]\<rparr>]\<rparr> 0 5
       = Inr (\<lparr>threads = [\<lparr>hazard = [4], to_delete = [4]\<rparr>]\<rparr>, [3, 5])
   \<and> no_null_entries \<lparr>threads = [\<lparr>hazard = [4], to_delete = [4]\<rparr>]\<rparr>
   \<and> Holder_protect \<lparr>threads = [\<lparr>hazard = [4], to_delete = [3, 4]\<rparr>]\<rparr> \<lparr>hazard_ptr = (0, 0)\<rparr> (\<lambda>k. 6)
       = Some (\<lparr>threads = [\<lparr>hazard = [6], to_delete = [3, 4]\<rparr>]\<rparr>, 6)
   \<and> protect_old \<lparr>threads = [\<lparr>hazard = [4], to_delete = [3, 4]\<rparr>]\<rparr> 0 0 (\<lambda>k. 6)
       = Some (Inr (\<lparr>threads = [\<lparr>hazard = [6], to_delete = [3, 4]\<rparr>]\<rparr>, 6))
   \<and> no_null_entries \<lparr>threads = [\<lparr>hazard = [6], to_delete = [3, 4]\<rparr>]\<rparr>
   \<and> clear_old \<lparr>threads = [\<lparr>hazard = [4], to_delete = [3, 4]\<rparr>]\<rparr> 0 0
       = Inr \<lparr>threads = [\<lparr>hazard = [0], to_delete = [3, 4]\<rparr>]\<rparr>
   \<and> no_null_entries (Holder_clear \<lparr>threads = [\<lparr>hazard = [4], to_delete = [3, 4]\<rparr>]\<rparr> \<lparr>hazard_ptr = (0, 0)\<rparr>)
   \<and> nullptr \<notin> set ([3, 4] @ [5 :: ptr])"
  using retirement_lists_never_hold_null
    [of 1 "\<lambda>t i. 9" 1 "\<lparr>threads = [\<lparr>hazard = [4], to_delete = [3, 4]\<rparr>]\<rparr>" 0 5
        "\<lparr>hazard_ptr = (0, 0)\<rparr>" "\<lambda>k. 6" 0]
  by (simp add: no_null_entries_def retire_def retire_loop.simps is_protected_def erase_def reset_def
      Holder_protect_def protect_old_def get_hazard_ptr_def do_protect_def do_protect_loop.simps
      clear_old_def do_clear_def Holder_clear_def cell_store_def)

subsection \<open>Retiring while other threads write: proofs\<close>

text \<open>
  \<open>is_protected\<close> is true exactly when some load returned the pointer.
\<close>

lemma is_protected_obs_iff:
  "is_protected_obs hp ob p \<longleftrightarrow>
     (\<exists>t < length (threads hp). \<exists>i < length (hazard (threads hp ! t)). ob t i = p)"
  by (simp add: is_protected_obs_def list_ex_iff Bex_def)

lemma is_protected_obs_cell_load:
  "is_protected_obs hp (\<lambda>t i. cell_load hp (t, i)) p = is_protected hp p"
  by (simp add: is_protected_obs_iff is_protected_iff)

lemma retire_loop_obs_unfold:
  "it \<le> length to_del \<Longrightarrow>
   retire_loop_obs obs hp k to_del it freed =
     (take it to_del @
        map snd (filter (\<lambda>(j, q). is_protected_obs hp (obs j) q) (enumerate k (drop it to_del))),
      freed @
        map snd (filter (\<lambda>(j, q). q \<noteq> nullptr \<and> \<not> is_protected_obs hp (obs j) q)
                   (enumerate k (drop it to_del))))"
proof (induction obs hp k to_del it freed rule: retire_loop_obs.induct)
  case (1 obs hp k to_del it freed)
  show ?case
  proof (cases "it < length to_del")
    case False
    with "1.prems" show ?thesis
      by (subst retire_loop_obs.simps) simp
  next
    case True
    then have split: "drop it to_del = to_del ! it # drop (Suc it) to_del"
      by (simp add: Cons_nth_drop_Suc)
    show ?thesis
    proof (cases "is_protected_obs hp (obs k) (to_del ! it)")
      case prot: True
      from True have it': "Suc it \<le> length to_del" by simp
      from prot True "1.IH"(2) [OF True _ it'] show ?thesis
        by (subst retire_loop_obs.simps) (simp add: split take_Suc_conv_app_nth)
    next
      case False
      have len: "it \<le> length (erase to_del it)"
        using \<open>it < length to_del\<close> by (simp add: erase_def)
      have tk: "take it (erase to_del it) = take it to_del"
        using \<open>it < length to_del\<close> by (simp add: erase_def)
      have dr: "drop it (erase to_del it) = drop (Suc it) to_del"
        using \<open>it < length to_del\<close> by (simp add: erase_def)
      from False True "1.IH"(1) [OF True _ len] show ?thesis
        by (subst retire_loop_obs.simps) (simp add: split tk dr reset_def)
    qed
  qed
qed

lemma retire_obs_eq:
  "thread_id < length (threads hp) \<Longrightarrow>
   retire_obs obs hp thread_id p =
     Inr (hp\<lparr>threads := (threads hp)[thread_id := (threads hp ! thread_id)
             \<lparr>to_delete := map snd (filter (\<lambda>(j, q). is_protected_obs hp (obs j) q)
                (enumerate 0 (to_delete (threads hp ! thread_id) @ (if p \<noteq> nullptr then [p] else []))))\<rparr>]\<rparr>,
          map snd (filter (\<lambda>(j, q). q \<noteq> nullptr \<and> \<not> is_protected_obs hp (obs j) q)
            (enumerate 0 (to_delete (threads hp ! thread_id) @ (if p \<noteq> nullptr then [p] else [])))))"
  by (simp add: retire_obs_def Let_def retire_loop_obs_unfold)

lemma filter_enumerate_const:
  "map snd (filter (\<lambda>(j, q). P q) (enumerate k xs)) = filter P xs"
  by (induction xs arbitrary: k) simp_all

text \<open>With no other thread writing, every load returns what the registry holds.\<close>

lemma retire_obs_sequential:
  "retire_obs (\<lambda>k t i. cell_load hp (t, i)) hp thread_id p = retire hp thread_id p"
proof (cases "thread_id < length (threads hp)")
  case True
  then show ?thesis
    by (simp add: retire_obs_eq retire_eq is_protected_obs_cell_load filter_enumerate_const)
next
  case False
  then show ?thesis by (simp add: retire_obs_def retire_def)
qed

lemma fold_store_dims:
  "length (threads (fold (\<lambda>v h. cell_store h c v) vs hp)) = length (threads hp)"
  "length (hazard (threads (fold (\<lambda>v h. cell_store h c v) vs hp) ! t)) = length (hazard (threads hp ! t))"
  by (induction vs arbitrary: hp) (simp_all add: cell_store_dims)

lemma do_protect_publishes:
  assumes c: "fst c < length (threads hp)" "snd c < length (hazard (threads hp ! fst c))"
    and r: "do_protect hp c src = Some (hp', q)" and nz: "src 0 \<noteq> nullptr"
  shows "cell_load hp' c = q \<and> length (threads hp') = length (threads hp)
      \<and> length (hazard (threads hp' ! t)) = length (hazard (threads hp ! t))"
proof (cases "\<exists>n. src (Suc n) = src n")
  case False
  with r nz show ?thesis by (simp add: do_protect_eq)
next
  case True
  define n where "n = (LEAST n. src (Suc n) = src n)"
  define mid where "mid = fold (\<lambda>v h. cell_store h c v) (map src [0..<n]) hp"
  from True r nz have hp': "hp' = fold (\<lambda>v h. cell_store h c v) (map src [0..<Suc n]) hp"
    and q: "q = src n"
    by (simp_all add: do_protect_eq n_def del: upt_Suc)
  from hp' have st: "hp' = cell_store mid c (src n)"
    by (simp add: mid_def)
  have dims: "length (threads mid) = length (threads hp)"
    "\<And>t. length (hazard (threads mid ! t)) = length (hazard (threads hp ! t))"
    unfolding mid_def by (rule fold_store_dims)+
  from c dims have "cell_load (cell_store mid c (src n)) c = src n"
    by (intro cell_load_store_same) simp_all
  with st q dims show ?thesis
    by (simp add: cell_store_dims)
qed

text \<open>
  A reader whose \<open>protect\<close> returned the non-null pointer \<open>q\<close> has \<open>q\<close> in its cell; a
  \<open>retire\<close> of \<open>q\<close> that runs afterwards, before the reader clears, keeps \<open>q\<close> in the
  retirement list and does not delete it.
\<close>

lemma protect_then_retire_keeps:
  assumes c: "fst c < length (threads hp)" "snd c < length (hazard (threads hp ! fst c))"
    and pr: "do_protect hp c src = Some (hp1, q)" and nz: "q \<noteq> nullptr"
    and rt: "retire hp1 thread_id q = Inr (hp2, freed)"
  shows "q \<notin> set freed" and "q \<in> set (to_delete (threads hp2 ! thread_id))"
proof -
  have s0: "src 0 \<noteq> nullptr"
  proof
    assume "src 0 = nullptr"
    with pr have "q = nullptr" by (simp add: do_protect_eq)
    with nz show False by simp
  qed
  from do_protect_publishes [OF c pr s0, of "fst c"]
  have cell: "cell_load hp1 c = q"
    and len: "length (threads hp1) = length (threads hp)"
    and hlen: "length (hazard (threads hp1 ! fst c)) = length (hazard (threads hp ! fst c))"
    by simp_all
  from c len hlen cell have prot: "is_protected hp1 q"
    unfolding is_protected_iff
    by (metis prod.collapse)
  from rt have lt: "thread_id < length (threads hp1)"
    by (cases "thread_id < length (threads hp1)") (simp_all add: retire_out_of_range)
  from rt lt prot show "q \<notin> set freed"
    by (auto simp: retire_eq)
  from rt lt prot nz show "q \<in> set (to_delete (threads hp2 ! thread_id))"
    by (auto simp: retire_eq)
qed

text \<open>
  Claim C1. Whatever the other threads do while \<open>retire\<close> runs, that is, for every
  choice \<open>obs\<close> of the values the loads of the hazard cells return, an object the call
  deletes is an entry of the retirement list, at some position \<open>k\<close>, such that in the
  scan for that entry no hazard cell of any thread's array held the object's address at
  the instant the scan loaded the cell. In particular, when the cell of a reader holds the
  address at every load, as it does from the completion of the reader's \<open>protect\<close> to its
  \<open>clear\<close>, the object is not deleted. With no other thread writing, \<open>retire_obs\<close> is
  \<open>retire\<close> (\<open>retire_obs_sequential\<close>), and \<open>protect_then_retire_keeps\<close> is the
  sequential case of a reader that protects before the sweep.
\<close>

theorem sweep_frees_only_unobserved:
  assumes "retire_obs obs hp thread_id p = Inr (hp', freed)"
  shows "(\<forall>q \<in> set freed. q \<noteq> nullptr \<and>
            (\<exists>k < length (to_delete (threads hp ! thread_id) @ (if p \<noteq> nullptr then [p] else [])).
               (to_delete (threads hp ! thread_id) @ (if p \<noteq> nullptr then [p] else [])) ! k = q \<and>
               (\<forall>t < length (threads hp). \<forall>i < length (hazard (threads hp ! t)). obs k t i \<noteq> q)))
       \<and> (\<forall>q t i. t < length (threads hp) \<and> i < length (hazard (threads hp ! t)) \<and> (\<forall>k. obs k t i = q)
            \<longrightarrow> q \<notin> set freed)"
proof -
  from assms have lt: "thread_id < length (threads hp)"
    by (cases "thread_id < length (threads hp)") (simp_all add: retire_obs_def)
  let ?pushed = "to_delete (threads hp ! thread_id) @ (if p \<noteq> nullptr then [p] else [])"
  from assms lt have freed: "freed =
      map snd (filter (\<lambda>(j, q). q \<noteq> nullptr \<and> \<not> is_protected_obs hp (obs j) q) (enumerate 0 ?pushed))"
    by (simp add: retire_obs_eq)
  have A: "\<forall>q \<in> set freed. q \<noteq> nullptr \<and>
            (\<exists>k < length ?pushed. ?pushed ! k = q \<and>
               (\<forall>t < length (threads hp). \<forall>i < length (hazard (threads hp ! t)). obs k t i \<noteq> q))"
  proof
    fix q assume "q \<in> set freed"
    then obtain j where j: "(j, q) \<in> set (enumerate 0 ?pushed)"
      and nz: "q \<noteq> nullptr" and np: "\<not> is_protected_obs hp (obs j) q"
      unfolding freed by auto
    from j have "j < length ?pushed" and "?pushed ! j = q"
      by (simp_all add: in_set_enumerate_eq)
    moreover from np
    have "\<forall>t < length (threads hp). \<forall>i < length (hazard (threads hp ! t)). obs j t i \<noteq> q"
      unfolding is_protected_obs_iff by blast
    ultimately show "q \<noteq> nullptr \<and>
        (\<exists>k < length ?pushed. ?pushed ! k = q \<and>
           (\<forall>t < length (threads hp). \<forall>i < length (hazard (threads hp ! t)). obs k t i \<noteq> q))"
      using nz by blast
  qed
  have B: "\<forall>q t i. t < length (threads hp) \<and> i < length (hazard (threads hp ! t)) \<and> (\<forall>k. obs k t i = q)
            \<longrightarrow> q \<notin> set freed"
  proof (intro allI impI notI)
    fix q t i
    assume h: "t < length (threads hp) \<and> i < length (hazard (threads hp ! t)) \<and> (\<forall>k. obs k t i = q)"
      and "q \<in> set freed"
    with A obtain k where
      "\<forall>t < length (threads hp). \<forall>i < length (hazard (threads hp ! t)). obs k t i \<noteq> q"
      by blast
    with h show False by blast
  qed
  from A B show ?thesis by (rule conjI)
qed

theorem sweep_frees_only_unobserved_witness:
  "retire_obs (\<lambda>k t i. if t = 1 then 4 else if k = 0 then 0 else 7)
     \<lparr>threads = [\<lparr>hazard = [0], to_delete = [3, 4, 7]\<rparr>, \<lparr>hazard = [4], to_delete = []\<rparr>]\<rparr> 0 5
     = Inr (\<lparr>threads = [\<lparr>hazard = [0], to_delete = [4, 7]\<rparr>, \<lparr>hazard = [4], to_delete = []\<rparr>]\<rparr>, [3, 5])
   \<and> (\<forall>k. (\<lambda>k t i. if t = 1 then 4 else if k = 0 then 0 else (7::ptr)) k (1::nat) (0::nat) = 4)
   \<and> (4::ptr) \<notin> set [3, 5]
   \<and> (\<exists>k. (\<lambda>k t i. if t = 1 then 4 else if k = 0 then 0 else (7::ptr)) k (0::nat) (0::nat) \<noteq> 3
          \<and> (\<lambda>k t i. if t = 1 then 4 else if k = 0 then 0 else (7::ptr)) k (1::nat) (0::nat) \<noteq> 3)"
proof -
  let ?obs = "\<lambda>(k::nat) (t::nat) (i::nat). if t = 1 then 4 else if k = 0 then 0 else (7::ptr)"
  let ?hp = "\<lparr>threads = [\<lparr>hazard = [0], to_delete = [3, 4, 7]\<rparr>, \<lparr>hazard = [4], to_delete = []\<rparr>]\<rparr>"
  let ?hp' = "\<lparr>threads = [\<lparr>hazard = [0], to_delete = [4, 7]\<rparr>, \<lparr>hazard = [4], to_delete = []\<rparr>]\<rparr>"
  have r: "retire_obs ?obs ?hp 0 5 = Inr (?hp', [3, 5])"
    by (simp add: retire_obs_def retire_loop_obs.simps is_protected_obs_def erase_def reset_def)
  have held: "(1::nat) < length (threads ?hp) \<and> (0::nat) < length (hazard (threads ?hp ! 1))
      \<and> (\<forall>k. ?obs k 1 0 = 4)"
    by simp
  from sweep_frees_only_unobserved [OF r]
  have "(1::nat) < length (threads ?hp) \<and> (0::nat) < length (hazard (threads ?hp ! 1))
      \<and> (\<forall>k. ?obs k 1 0 = 4) \<longrightarrow> (4::ptr) \<notin> set [3, 5]"
    by blast
  from this held have "(4::ptr) \<notin> set [3, 5]" by (rule mp)
  with r show ?thesis by simp
qed

subsection \<open>The operations of protect in order: proofs\<close>

text \<open>
  One unfolding of the loop, for each outcome of its condition.
\<close>

lemma do_protect_loop_ev_exit:
  "to_protect k = saved \<Longrightarrow>
   do_protect_loop_ev hp c to_protect k saved evs =
     Some (hp, saved, evs @ [Load (cell_load hp c) (to_protect k)])"
  using do_protect_loop_ev.simps [of hp c to_protect k saved evs] by simp

lemma do_protect_loop_ev_step:
  "to_protect k \<noteq> saved \<Longrightarrow>
   do_protect_loop_ev hp c to_protect k saved evs =
     do_protect_loop_ev (cell_store hp c (to_protect k)) c to_protect (Suc k) (to_protect k)
       (evs @ [Load (cell_load hp c) (to_protect k), Store (to_protect k)])"
  using do_protect_loop_ev.simps [of hp c to_protect k saved evs] by simp

lemma do_protect_loop_ev_run:
  "fst c < length (threads hp) \<Longrightarrow> snd c < length (hazard (threads hp ! fst c)) \<Longrightarrow>
   (\<forall>j<d. src (k + j) \<noteq> (if j = 0 then saved else src (k + j - 1))) \<Longrightarrow>
   src (k + d) = (if d = 0 then saved else src (k + d - 1)) \<Longrightarrow>
   do_protect_loop_ev hp c src k saved evs =
     Some (fold (\<lambda>v h. cell_store h c v) (map src [k..<k + d]) hp, src (k + d),
           evs @ Load (cell_load hp c) (src k) #
             concat (map (\<lambda>j. [Store (src (k + j)), Load (src (k + j)) (src (Suc (k + j)))]) [0..<d]))"
proof (induction d arbitrary: hp k saved evs)
  case 0
  then show ?case by (simp add: do_protect_loop_ev_exit)
next
  case (Suc d)
  let ?hp1 = "cell_store hp c (src k)"
  from Suc.prems(3) have ne: "src k \<noteq> saved"
    by (metis add.right_neutral zero_less_Suc)
  have A: "\<forall>j<d. src (Suc k + j) \<noteq> (if j = 0 then src k else src (Suc k + j - 1))"
  proof (intro allI impI)
    fix j assume "j < d"
    with Suc.prems(3) have "src (k + Suc j) \<noteq> (if Suc j = 0 then saved else src (k + Suc j - 1))"
      by (metis Suc_less_eq)
    then show "src (Suc k + j) \<noteq> (if j = 0 then src k else src (Suc k + j - 1))"
      by (cases j) simp_all
  qed
  have B: "src (Suc k + d) = (if d = 0 then src k else src (Suc k + d - 1))"
    using Suc.prems(4) by (cases d) simp_all
  from Suc.prems(1) have c1: "fst c < length (threads ?hp1)"
    by (simp add: cell_store_dims)
  from Suc.prems(2) have c2: "snd c < length (hazard (threads ?hp1 ! fst c))"
    by (simp add: cell_store_dims)
  from Suc.prems(1,2) have held: "cell_load ?hp1 c = src k"
    by (rule cell_load_store_same)
  have up: "[k..<k + Suc d] = k # [Suc k..<Suc k + d]"
    by (simp add: upt_conv_Cons del: upt_Suc)
  have ev: "map (\<lambda>j. [Store (src (k + j)), Load (src (k + j)) (src (Suc (k + j)))]) [0..<Suc d]
      = [Store (src k), Load (src k) (src (Suc k))]
        # map (\<lambda>j. [Store (src (Suc k + j)), Load (src (Suc k + j)) (src (Suc (Suc k + j)))]) [0..<d]"
    by (simp add: map_upt_Suc del: upt_Suc)
  have "do_protect_loop_ev hp c src k saved evs =
          do_protect_loop_ev ?hp1 c src (Suc k) (src k)
            (evs @ [Load (cell_load hp c) (src k), Store (src k)])"
    using ne by (rule do_protect_loop_ev_step [where to_protect = src and k = k and saved = saved])
  also have "\<dots> =
      Some (fold (\<lambda>v h. cell_store h c v) (map src [Suc k..<Suc k + d]) ?hp1, src (Suc k + d),
            (evs @ [Load (cell_load hp c) (src k), Store (src k)]) @ Load (cell_load ?hp1 c) (src (Suc k)) #
              concat (map (\<lambda>j. [Store (src (Suc k + j)), Load (src (Suc k + j)) (src (Suc (Suc k + j)))])
                        [0..<d]))"
    by (rule Suc.IH [OF c1 c2 A B])
  also have "\<dots> =
      Some (fold (\<lambda>v h. cell_store h c v) (map src [k..<k + Suc d]) hp, src (k + Suc d),
            evs @ Load (cell_load hp c) (src k) #
              concat (map (\<lambda>j. [Store (src (k + j)), Load (src (k + j)) (src (Suc (k + j)))]) [0..<Suc d]))"
    unfolding up ev held by simp
  finally show ?case .
qed

lemma do_protect_loop_ev_Some_exit:
  assumes "do_protect_loop_ev hp c src k saved evs = Some r"
  shows "\<exists>d. src (k + d) = (if d = 0 then saved else src (k + d - 1))"
proof -
  define P where "P = (\<lambda>(hp::HazardPointers) (c::cell_ref) (src::nat \<Rightarrow> ptr) k saved (evs::event list)
      (r::HazardPointers \<times> ptr \<times> event list). \<exists>d. src (k + d) = (if d = 0 then saved else src (k + d - 1)))"
  have "P hp c src k saved evs r"
  proof (rule do_protect_loop_ev.raw_induct [where P = P, OF _ assms])
    fix f hp c src k saved evs r
    assume IH: "\<And>hp c src k saved evs r. f hp c src k saved evs = Some r \<Longrightarrow> P hp c src k saved evs r"
      and body: "(if src k \<noteq> saved
                  then f (cell_store hp c (src k)) c src (Suc k) (src k)
                         (evs @ [Load (cell_load hp c) (src k), Store (src k)])
                  else Some (hp, saved, evs @ [Load (cell_load hp c) (src k)])) = Some r"
    show "P hp c src k saved evs r"
    proof (cases "src k = saved")
      case True
      then have "src (k + 0) = (if (0::nat) = 0 then saved else src (k + 0 - 1))" by simp
      then show ?thesis unfolding P_def by blast
    next
      case False
      with body have "f (cell_store hp c (src k)) c src (Suc k) (src k)
          (evs @ [Load (cell_load hp c) (src k), Store (src k)]) = Some r"
        by simp
      then have "P (cell_store hp c (src k)) c src (Suc k) (src k)
          (evs @ [Load (cell_load hp c) (src k), Store (src k)]) r"
        by (rule IH)
      then obtain d where d: "src (Suc k + d) = (if d = 0 then src k else src (Suc k + d - 1))"
        unfolding P_def by blast
      then have "src (k + Suc d) = (if Suc d = 0 then saved else src (k + Suc d - 1))"
        by (cases d) simp_all
      then show ?thesis unfolding P_def by blast
    qed
  qed
  then show ?thesis by (simp add: P_def)
qed

lemma do_protect_ev_eq:
  assumes c: "fst c < length (threads hp)" "snd c < length (hazard (threads hp ! fst c))"
  shows "do_protect_ev hp c src =
     (if src 0 = nullptr then Some (hp, nullptr, [Load (cell_load hp c) nullptr])
      else if \<exists>n. src (Suc n) = src n
      then Some (fold (\<lambda>v h. cell_store h c v) (map src [0..<Suc (LEAST n. src (Suc n) = src n)]) hp,
                 src (Suc (LEAST n. src (Suc n) = src n)),
                 Load (cell_load hp c) (src 0) #
                   concat (map (\<lambda>j. [Store (src j), Load (src j) (src (Suc j))])
                             [0..<Suc (LEAST n. src (Suc n) = src n)]))
      else None)"
proof (cases "src 0 = nullptr")
  case True
  then show ?thesis by (simp add: do_protect_ev_def do_protect_loop_ev_exit)
next
  case null: False
  show ?thesis
  proof (cases "\<exists>n. src (Suc n) = src n")
    case True
    define n where "n = (LEAST n. src (Suc n) = src n)"
    from True have eq: "src (Suc n) = src n"
      unfolding n_def by (rule LeastI_ex)
    have least: "\<And>m. m < n \<Longrightarrow> src (Suc m) \<noteq> src m"
      unfolding n_def by (rule not_less_Least)
    have A: "\<forall>j<Suc n. src (0 + j) \<noteq> (if j = 0 then nullptr else src (0 + j - 1))"
    proof (intro allI impI)
      fix j assume "j < Suc n"
      show "src (0 + j) \<noteq> (if j = 0 then nullptr else src (0 + j - 1))"
      proof (cases j)
        case 0
        with null show ?thesis by simp
      next
        case (Suc m)
        with \<open>j < Suc n\<close> have "m < n" by simp
        then have "src (Suc m) \<noteq> src m" by (rule least)
        with Suc show ?thesis by simp
      qed
    qed
    have B: "src (0 + Suc n) = (if Suc n = 0 then nullptr else src (0 + Suc n - 1))"
      using eq by simp
    have "do_protect_loop_ev hp c src 0 nullptr [] =
            Some (fold (\<lambda>v h. cell_store h c v) (map src [0..<0 + Suc n]) hp, src (0 + Suc n),
                  [] @ Load (cell_load hp c) (src 0) #
                    concat (map (\<lambda>j. [Store (src (0 + j)), Load (src (0 + j)) (src (Suc (0 + j)))])
                              [0..<Suc n]))"
      by (rule do_protect_loop_ev_run [OF c A B])
    with True null show ?thesis
      by (simp add: do_protect_ev_def n_def del: upt_Suc)
  next
    case False
    have "do_protect_loop_ev hp c src 0 nullptr [] = None"
    proof (cases "do_protect_loop_ev hp c src 0 nullptr []")
      case None
      then show ?thesis .
    next
      case (Some r)
      then obtain d where d: "src (0 + d) = (if d = 0 then nullptr else src (0 + d - 1))"
        by (blast dest: do_protect_loop_ev_Some_exit)
      show ?thesis
      proof (cases d)
        case 0
        with d null show ?thesis by simp
      next
        case (Suc m)
        with d have "src (Suc m) = src m" by simp
        with False show ?thesis by blast
      qed
    qed
    with False null show ?thesis by (simp add: do_protect_ev_def)
  qed
qed

text \<open>Dropping the list of operations gives \<open>do_protect\<close>.\<close>

lemma do_protect_ev_result:
  assumes c: "fst c < length (threads hp)" "snd c < length (hazard (threads hp ! fst c))"
  shows "map_option (\<lambda>(hp', q, evs). (hp', q)) (do_protect_ev hp c src) = do_protect hp c src"
proof -
  have "(\<exists>n. src (Suc n) = src n) \<Longrightarrow>
        src (Suc (LEAST n. src (Suc n) = src n)) = src (LEAST n. src (Suc n) = src n)"
    by (rule LeastI_ex)
  then show ?thesis
    by (simp add: do_protect_ev_eq [OF c] do_protect_eq del: upt_Suc)
qed

text \<open>
  Claim C2. For a cell of the registry, \<open>protect\<close> performs these atomic operations and
  no others, in this order: it loads the source; as long as the value loaded differs from
  the one loaded before (from null, for the first load) it stores the value into the
  hazard cell and loads the source again. So every load but the first happens at an
  instant when the hazard cell holds the value of the load before it: the value is
  published before the source is read again. The call returns at the first load that
  returns the value of the load before it, with that value as its result, and the cell
  then holds the result. When the first load returns null the call returns null after
  that one load, with no store. When no load ever returns the value of the load before
  it the call does not return. Without the list of operations the call is \<open>do_protect\<close>,
  which is \<open>Holder::protect\<close> on the holder's cell.
\<close>

theorem do_protect_publishes_then_rereads:
  assumes c: "fst c < length (threads hp)" "snd c < length (hazard (threads hp ! fst c))"
  shows "do_protect_ev hp c src =
     (if src 0 = nullptr then Some (hp, nullptr, [Load (cell_load hp c) nullptr])
      else if \<exists>n. src (Suc n) = src n
      then Some (fold (\<lambda>v h. cell_store h c v) (map src [0..<Suc (LEAST n. src (Suc n) = src n)]) hp,
                 src (Suc (LEAST n. src (Suc n) = src n)),
                 Load (cell_load hp c) (src 0) #
                   concat (map (\<lambda>j. [Store (src j), Load (src j) (src (Suc j))])
                             [0..<Suc (LEAST n. src (Suc n) = src n)]))
      else None)
   \<and> map_option (\<lambda>(hp', q, evs). (hp', q)) (do_protect_ev hp c src) = do_protect hp c src
   \<and> Holder_protect hp \<lparr>hazard_ptr = c\<rparr> src = do_protect hp c src
   \<and> (\<forall>hp' q. do_protect hp c src = Some (hp', q) \<and> src 0 \<noteq> nullptr \<longrightarrow>
         cell_load hp' c = q \<and> q = src (Suc (LEAST n. src (Suc n) = src n))
         \<and> src (Suc (LEAST n. src (Suc n) = src n)) = src (LEAST n. src (Suc n) = src n))"
proof -
  have last: "\<forall>hp' q. do_protect hp c src = Some (hp', q) \<and> src 0 \<noteq> nullptr \<longrightarrow>
         cell_load hp' c = q \<and> q = src (Suc (LEAST n. src (Suc n) = src n))
         \<and> src (Suc (LEAST n. src (Suc n) = src n)) = src (LEAST n. src (Suc n) = src n)"
  proof (intro allI impI)
    fix hp' q
    assume h: "do_protect hp c src = Some (hp', q) \<and> src 0 \<noteq> nullptr"
    then have r: "do_protect hp c src = Some (hp', q)" and nz: "src 0 \<noteq> nullptr"
      by simp_all
    from do_protect_publishes [OF c r nz, of "fst c"] have cell: "cell_load hp' c = q"
      by simp
    from r nz have ex: "\<exists>n. src (Suc n) = src n"
      by (auto simp: do_protect_eq split: if_splits)
    then have eq: "src (Suc (LEAST n. src (Suc n) = src n)) = src (LEAST n. src (Suc n) = src n)"
      by (rule LeastI_ex)
    from r nz ex have "q = src (LEAST n. src (Suc n) = src n)"
      by (simp add: do_protect_eq del: upt_Suc)
    with cell eq show "cell_load hp' c = q \<and> q = src (Suc (LEAST n. src (Suc n) = src n))
         \<and> src (Suc (LEAST n. src (Suc n) = src n)) = src (LEAST n. src (Suc n) = src n)"
      by simp
  qed
  have hold: "Holder_protect hp \<lparr>hazard_ptr = c\<rparr> src = do_protect hp c src"
    by (simp add: Holder_protect_def)
  from do_protect_ev_eq [OF c] do_protect_ev_result [OF c] hold last show ?thesis
    by blast
qed

theorem do_protect_publishes_then_rereads_witness:
  "(0::nat) < length (threads \<lparr>threads = [\<lparr>hazard = [3], to_delete = []\<rparr>]\<rparr>)
   \<and> (0::nat) < length (hazard (threads \<lparr>threads = [\<lparr>hazard = [3], to_delete = []\<rparr>]\<rparr> ! 0))
   \<and> do_protect_ev \<lparr>threads = [\<lparr>hazard = [3], to_delete = []\<rparr>]\<rparr> (0, 0)
        (\<lambda>k. if k = 0 then 5 else 7)
       = Some (\<lparr>threads = [\<lparr>hazard = [7], to_delete = []\<rparr>]\<rparr>, 7,
               [Load 3 5, Store 5, Load 5 7, Store 7, Load 7 7])
   \<and> do_protect \<lparr>threads = [\<lparr>hazard = [3], to_delete = []\<rparr>]\<rparr> (0, 0)
        (\<lambda>k. if k = 0 then 5 else 7)
       = Some (\<lparr>threads = [\<lparr>hazard = [7], to_delete = []\<rparr>]\<rparr>, 7)
   \<and> cell_load \<lparr>threads = [\<lparr>hazard = [7], to_delete = []\<rparr>]\<rparr> (0, 0) = 7"
proof -
  let ?hp = "\<lparr>threads = [\<lparr>hazard = [3], to_delete = []\<rparr>]\<rparr>"
  let ?src = "\<lambda>k::nat. if k = 0 then 5 else (7::ptr)"
  have h1: "fst ((0, 0)::cell_ref) < length (threads ?hp)" by simp
  have h2: "snd ((0, 0)::cell_ref) < length (hazard (threads ?hp ! fst ((0, 0)::cell_ref)))" by simp
  have ev: "do_protect_ev ?hp (0, 0) ?src
      = Some (\<lparr>threads = [\<lparr>hazard = [7], to_delete = []\<rparr>]\<rparr>, 7,
              [Load 3 5, Store 5, Load 5 7, Store 7, Load 7 7])"
    by (simp add: do_protect_ev_def do_protect_loop_ev.simps cell_store_def cell_load_def)
  from do_protect_publishes_then_rereads [OF h1 h2, of ?src]
  have "map_option (\<lambda>(hp', q, evs). (hp', q)) (do_protect_ev ?hp (0, 0) ?src) = do_protect ?hp (0, 0) ?src"
    by blast
  with ev have "do_protect ?hp (0, 0) ?src = Some (\<lparr>threads = [\<lparr>hazard = [7], to_delete = []\<rparr>]\<rparr>, 7)"
    by simp
  with ev show ?thesis by (simp add: cell_load_def)
qed

text \<open>
  Claim C4. For a thread index in range, whatever the other threads store while the call
  runs, \<open>retire\<close> returns with the thread's retirement list holding exactly the entries
  of the previous list, followed by \<open>p\<close> when \<open>p\<close> is not null, whose address some hazard
  cell held when the scan for that entry loaded the cell, in their order; every entry
  whose address no cell held at its scan has been deleted, is in the log of deleted
  objects and is no longer in the list. Entry number \<open>k\<close> is judged by the loads of scan
  \<open>k\<close> alone. Nothing else in the registry changes. The registry is one whose retirement
  lists hold no null pointer, as every registry the operations produce is (claim C10).
\<close>

theorem retire_keeps_observed:
  assumes "thread_id < length (threads hp)" and "no_null_entries hp"
  shows "retire_obs obs hp thread_id p =
     Inr (hp\<lparr>threads := (threads hp)[thread_id := (threads hp ! thread_id)
             \<lparr>to_delete := map snd (filter
                (\<lambda>(k, q). \<exists>t < length (threads hp). \<exists>i < length (hazard (threads hp ! t)). obs k t i = q)
                (enumerate 0 (to_delete (threads hp ! thread_id) @ (if p \<noteq> nullptr then [p] else []))))\<rparr>]\<rparr>,
          map snd (filter
            (\<lambda>(k, q). \<not> (\<exists>t < length (threads hp). \<exists>i < length (hazard (threads hp ! t)). obs k t i = q))
            (enumerate 0 (to_delete (threads hp ! thread_id) @ (if p \<noteq> nullptr then [p] else [])))))"
proof -
  let ?pushed = "to_delete (threads hp ! thread_id) @ (if p \<noteq> nullptr then [p] else [])"
  from assms(2) assms(1) have "nullptr \<notin> set (to_delete (threads hp ! thread_id))"
    by (rule no_null_entries_nth)
  then have nn: "nullptr \<notin> set ?pushed" by auto
  have "filter (\<lambda>(k, q). q \<noteq> nullptr \<and> \<not> is_protected_obs hp (obs k) q) (enumerate 0 ?pushed)
      = filter (\<lambda>(k, q). \<not> is_protected_obs hp (obs k) q) (enumerate 0 ?pushed)"
  proof (rule filter_cong [OF refl])
    fix x assume "x \<in> set (enumerate 0 ?pushed)"
    then have "fst x < length ?pushed" and "?pushed ! fst x = snd x"
      by (simp_all add: in_set_enumerate_eq)
    then have "snd x \<in> set ?pushed"
      by (metis nth_mem)
    with nn have "snd x \<noteq> nullptr" by metis
    then show "(case x of (k, q) \<Rightarrow> q \<noteq> nullptr \<and> \<not> is_protected_obs hp (obs k) q)
        = (case x of (k, q) \<Rightarrow> \<not> is_protected_obs hp (obs k) q)"
      by (cases x) simp
  qed
  with assms(1) show ?thesis
    by (simp add: retire_obs_eq is_protected_obs_iff)
qed

theorem retire_keeps_observed_witness:
  "(0::nat) < length (threads \<lparr>threads = [\<lparr>hazard = [4], to_delete = [3, 4, 6]\<rparr>]\<rparr>)
   \<and> no_null_entries \<lparr>threads = [\<lparr>hazard = [4], to_delete = [3, 4, 6]\<rparr>]\<rparr>
   \<and> retire_obs (\<lambda>k t i. if k = 1 then 0 else if k = 2 then 6 else 4)
        \<lparr>threads = [\<lparr>hazard = [4], to_delete = [3, 4, 6]\<rparr>]\<rparr> 0 5
     = Inr (\<lparr>threads = [\<lparr>hazard = [4], to_delete = [6]\<rparr>]\<rparr>, [3, 4, 5])"
proof -
  let ?hp = "\<lparr>threads = [\<lparr>hazard = [4], to_delete = [3, 4, 6]\<rparr>]\<rparr>"
  let ?obs = "\<lambda>(k::nat) (t::nat) (i::nat). if k = 1 then 0 else if k = 2 then 6 else (4::ptr)"
  have h1: "(0::nat) < length (threads ?hp)" by simp
  have h2: "no_null_entries ?hp" by (simp add: no_null_entries_def)
  show ?thesis
    using h1 h2 retire_keeps_observed [OF h1 h2, of ?obs 5]
    by (simp add: enumerate_eq_zip)
qed

end
